theory Spec2Isabelle
  imports Complex_Main "HOL-Library.Monad_Syntax" "HOL-Library.Multiset"
begin

section \<open>Values and text\<close>

text \<open>
  The scripts work on JSON values and on the cells of CSV tables. A Python \<open>float\<close> is
  modelled as a real number (exact arithmetic, no NaN), a Python \<open>int\<close> as an integer, a
  \<open>str\<close> as a list of characters, each character standing for one code point below 256.
\<close>

datatype pyval =
    PNone
  | PBool bool
  | PInt int
  | PFloat real
  | PStr string
  | PList "pyval list"
  | PDict "(string \<times> pyval) list"

text \<open>A dictionary with string keys: a JSON object, a row of the ranking, a row of a table.\<close>

type_synonym row = "string \<rightharpoonup> pyval"

text \<open>\<open>d.get(k, default)\<close>\<close>

definition getd :: "row \<Rightarrow> string \<Rightarrow> pyval \<Rightarrow> pyval" where
  "getd r k d = (case r k of None \<Rightarrow> d | Some v \<Rightarrow> v)"

text \<open>Truth value of an object, as \<open>if x\<close>, \<open>x or y\<close> and \<open>not x\<close> test it.\<close>

fun truthy :: "pyval \<Rightarrow> bool" where
  "truthy PNone = False"
| "truthy (PBool b) = b"
| "truthy (PInt i) = (i \<noteq> 0)"
| "truthy (PFloat x) = (x \<noteq> 0)"
| "truthy (PStr s) = (s \<noteq> [])"
| "truthy (PList xs) = (xs \<noteq> [])"
| "truthy (PDict kvs) = (kvs \<noteq> [])"

text \<open>
  A number as arithmetic and ordering comparisons with a number read it; \<open>None\<close> is the
  \<open>TypeError\<close> that Python raises for \<open>None\<close>, a string, a list or a dictionary.
\<close>

fun to_num :: "pyval \<Rightarrow> real option" where
  "to_num (PInt i) = Some (of_int i)"
| "to_num (PFloat x) = Some x"
| "to_num (PBool b) = Some (if b then 1 else 0)"
| "to_num _ = None"

text \<open>Decimal digits of a natural number and of an integer, as \<open>str\<close> prints them.\<close>

fun str_nat :: "nat \<Rightarrow> string" where
  "str_nat n = (if n < 10 then [char_of (48 + n)] else str_nat (n div 10) @ [char_of (48 + n mod 10)])"

declare str_nat.simps [simp del]

definition str_int :: "int \<Rightarrow> string" where
  "str_int i = (if i < 0 then CHR ''-'' # str_nat (nat (- i)) else str_nat (nat i))"

text \<open>
  \<open>str(v)\<close>. The text of a float, a list or a dictionary is Python's \<open>repr\<close>, which is
  not part of these scripts: it is the parameter \<open>render\<close>.
\<close>

fun py_str :: "(pyval \<Rightarrow> string) \<Rightarrow> pyval \<Rightarrow> string" where
  "py_str render (PStr s) = s"
| "py_str render PNone = ''None''"
| "py_str render (PBool b) = (if b then ''True'' else ''False'')"
| "py_str render (PInt i) = str_int i"
| "py_str render v = render v"

text \<open>Character classes of \<open>str.isspace\<close>, \<open>str.strip\<close> and the pattern classes \<open>\s\<close> and \<open>\w\<close>.\<close>

definition is_space :: "char \<Rightarrow> bool" where
  "is_space c = (let n = (of_char c :: nat)
                 in (9 \<le> n \<and> n \<le> 13) \<or> (28 \<le> n \<and> n \<le> 32) \<or> n = 133 \<or> n = 160)"

definition is_word :: "char \<Rightarrow> bool" where
  "is_word c = (let n = (of_char c :: nat)
                in (48 \<le> n \<and> n \<le> 57) \<or> (65 \<le> n \<and> n \<le> 90) \<or> n = 95 \<or> (97 \<le> n \<and> n \<le> 122)
                   \<or> n = 170 \<or> n = 178 \<or> n = 179 \<or> n = 181 \<or> n = 185 \<or> n = 186
                   \<or> (188 \<le> n \<and> n \<le> 190) \<or> (192 \<le> n \<and> n \<le> 214)
                   \<or> (216 \<le> n \<and> n \<le> 246) \<or> 248 \<le> n)"

text \<open>Line boundaries of \<open>str.splitlines\<close>; \<open>\r\n\<close> is one boundary.\<close>

definition is_linebreak :: "char \<Rightarrow> bool" where
  "is_linebreak c = (let n = (of_char c :: nat) in (10 \<le> n \<and> n \<le> 13) \<or> (28 \<le> n \<and> n \<le> 30) \<or> n = 133)"

fun splitlines_from :: "string \<Rightarrow> string \<Rightarrow> string list" where
  "splitlines_from cur [] = (if cur = [] then [] else [cur])"
| "splitlines_from cur [c] = (if is_linebreak c then [cur] else [cur @ [c]])"
| "splitlines_from cur (c # d # cs) =
     (if c = CHR 0x0D \<and> d = CHR 0x0A then cur # splitlines_from [] cs
      else if is_linebreak c then cur # splitlines_from [] (d # cs)
      else splitlines_from (cur @ [c]) (d # cs))"

definition splitlines :: "string \<Rightarrow> string list" where
  "splitlines s = splitlines_from [] s"

definition strip :: "string \<Rightarrow> string" where
  "strip s = rev (dropWhile is_space (rev (dropWhile is_space s)))"

text \<open>\<open>str.lower\<close> on code points below 256.\<close>

definition lower_char :: "char \<Rightarrow> char" where
  "lower_char c = (let n = (of_char c :: nat)
                   in if (65 \<le> n \<and> n \<le> 90) \<or> (192 \<le> n \<and> n \<le> 222 \<and> n \<noteq> 215) then char_of (n + 32) else c)"

definition lower :: "string \<Rightarrow> string" where
  "lower s = map lower_char s"

text \<open>\<open>k in s\<close> for two strings: \<open>k\<close> occurs in \<open>s\<close> as a contiguous piece.\<close>

fun isin :: "string \<Rightarrow> string \<Rightarrow> bool" where
  "isin k [] = (k = [])"
| "isin k (c # cs) = (take (length k) (c # cs) = k \<or> isin k cs)"

section \<open>Feature extraction: the flags read off the text\<close>

text \<open>\<open>re.search(r":\s*\w", s)\<close>: a colon, then any run of whitespace, then a word character.\<close>

fun ws_then_word :: "string \<Rightarrow> bool" where
  "ws_then_word [] = False"
| "ws_then_word (c # cs) = (if is_space c then ws_then_word cs else is_word c)"

fun search_colon_word :: "string \<Rightarrow> bool" where
  "search_colon_word [] = False"
| "search_colon_word (c # cs) = ((c = CHR '':'' \<and> ws_then_word cs) \<or> search_colon_word cs)"

definition has_type_annotations :: "string \<Rightarrow> int" where
  "has_type_annotations s =
     (if (isin '':'' s \<and> isin ''->'' s) \<or> (isin '':'' s \<and> search_colon_word s) then 1 else 0)"

text \<open>
  The flag as the specification words it: both a colon and an arrow, or a colon immediately
  followed by a word character.
\<close>

fun colon_next_word :: "string \<Rightarrow> bool" where
  "colon_next_word (c # d # cs) = ((c = CHR '':'' \<and> is_word d) \<or> colon_next_word (d # cs))"
| "colon_next_word _ = False"

definition spec_has_type_annotations :: "string \<Rightarrow> bool" where
  "spec_has_type_annotations s = ((isin '':'' s \<and> isin ''->'' s) \<or> colon_next_word s)"

section \<open>Feature extraction: the syntax tree\<close>

text \<open>
  The tree that \<open>ast.parse\<close> returns, reduced to what the metrics read: the class of each
  node, the attributes of that class which the script looks at, and the child nodes in the
  order of \<open>ast.iter_child_nodes\<close>. A module and a function definition carry what
  \<open>ast.get_docstring\<close> returns for them, a function definition and a lambda carry
  \<open>len(args.args)\<close>, a boolean operation carries \<open>len(values)\<close>. Every other class
  that the script does not name is \<open>Other\<close>.
\<close>

datatype kind =
    Module "string option"
  | FunctionDef nat "string option"
  | Lambda nat
  | If | For | While | IfExp | Try | ExceptHandler | With
  | BoolOp nat
  | Call | Return | Assign | AugAssign | Import | ImportFrom
  | Other

datatype ast = Node kind "ast list"

fun kind_of :: "ast \<Rightarrow> kind" where
  "kind_of (Node k cs) = k"

text \<open>\<open>ast.walk\<close>: breadth first, from a queue.\<close>

function walk_from :: "ast list \<Rightarrow> ast list" where
  "walk_from [] = []"
| "walk_from (Node k cs # todo) = Node k cs # walk_from (todo @ cs)"
  by pat_completeness auto
termination
  by (relation "measure (\<lambda>q. sum_list (map size q))") (simp_all add: size_list_conv_sum_list)

definition walk :: "ast \<Rightarrow> ast list" where
  "walk t = walk_from [t]"

text \<open>
  \<open>ast.parse\<close> itself is Python's parser and is a parameter \<open>parse\<close> of the model:
  \<open>None\<close> when it raises. \<open>safe_parse\<close> tries the text, then the text wrapped as the body
  of a function.
\<close>

definition wrap_code :: "string \<Rightarrow> string" where
  "wrap_code code_str =
     ''def __wrapper__():'' @ [CHR 0x0A]
     @ concat (case map (\<lambda>ln. ''    '' @ ln) (splitlines code_str) of
                 [] \<Rightarrow> []
               | l # ls \<Rightarrow> l # map (\<lambda>x. CHR 0x0A # x) ls)"

definition safe_parse :: "(string \<Rightarrow> ast option) \<Rightarrow> pyval \<Rightarrow> ast option" where
  "safe_parse parse code_str =
     (case code_str of
        PStr s \<Rightarrow>
          (if s = [] then None
           else (case parse s of
                   Some t \<Rightarrow> Some t
                 | None \<Rightarrow> (case parse (wrap_code s) of Some t \<Rightarrow> Some t | None \<Rightarrow> None)))
      | _ \<Rightarrow> None)"

fun is_branch :: "kind \<Rightarrow> bool" where
  "is_branch If = True"
| "is_branch For = True"
| "is_branch While = True"
| "is_branch IfExp = True"
| "is_branch Try = True"
| "is_branch ExceptHandler = True"
| "is_branch With = True"
| "is_branch _ = False"

definition complexity_step :: "nat \<Rightarrow> ast \<Rightarrow> nat" where
  "complexity_step cnt node =
     (let cnt = (if is_branch (kind_of node) then cnt + 1 else cnt)
      in (case kind_of node of BoolOp n \<Rightarrow> cnt + (if 1 \<le> n then n - 1 else 0) | _ \<Rightarrow> cnt))"

definition compute_cyclomatic_complexity :: "ast option \<Rightarrow> nat" where
  "compute_cyclomatic_complexity tree =
     (case tree of
        None \<Rightarrow> 0
      | Some t \<Rightarrow> max 1 (foldl complexity_step 0 (walk t) + 1))"

text \<open>\<open>isinstance(n, t)\<close> for the classes that are counted.\<close>

fun is_FunctionDef :: "kind \<Rightarrow> bool" where
  "is_FunctionDef (FunctionDef n d) = True"
| "is_FunctionDef _ = False"

fun is_Lambda :: "kind \<Rightarrow> bool" where
  "is_Lambda (Lambda n) = True"
| "is_Lambda _ = False"

definition count_nodes_of_type :: "ast option \<Rightarrow> (kind \<Rightarrow> bool) \<Rightarrow> nat" where
  "count_nodes_of_type tree t =
     (case tree of
        None \<Rightarrow> 0
      | Some tr \<Rightarrow> length (filter (\<lambda>n. t (kind_of n)) (walk tr)))"

text \<open>\<open>ast.get_docstring\<close> of the root or of a function definition.\<close>

fun get_docstring :: "ast \<Rightarrow> string option" where
  "get_docstring (Node (Module d) cs) = d"
| "get_docstring (Node (FunctionDef n d) cs) = d"
| "get_docstring _ = None"

fun first_function_doc_len :: "ast list \<Rightarrow> nat" where
  "first_function_doc_len [] = 0"
| "first_function_doc_len (node # rest) =
     (if is_FunctionDef (kind_of node)
      then (case get_docstring node of
              Some ds \<Rightarrow> (if ds \<noteq> [] then length ds else first_function_doc_len rest)
            | None \<Rightarrow> first_function_doc_len rest)
      else first_function_doc_len rest)"

definition extract_docstring_length :: "ast option \<Rightarrow> nat" where
  "extract_docstring_length tree =
     (case tree of
        None \<Rightarrow> 0
      | Some t \<Rightarrow>
          (case get_docstring t of
             Some doc \<Rightarrow> (if doc \<noteq> [] then length doc else first_function_doc_len (walk t))
           | None \<Rightarrow> first_function_doc_len (walk t)))"

fun args_len :: "kind \<Rightarrow> nat" where
  "args_len (FunctionDef n d) = n"
| "args_len (Lambda n) = n"
| "args_len _ = 0"

definition num_params_of :: "ast option \<Rightarrow> nat" where
  "num_params_of tree =
     (case tree of
        None \<Rightarrow> 0
      | Some t \<Rightarrow>
          (case filter (\<lambda>n. is_FunctionDef (kind_of n)) (walk t) of
             f # fs \<Rightarrow> args_len (kind_of f)
           | [] \<Rightarrow>
               (case filter (\<lambda>n. is_Lambda (kind_of n)) (walk t) of
                  l # ls \<Rightarrow> args_len (kind_of l)
                | [] \<Rightarrow> 0)))"

section \<open>Feature extraction: the keyword pattern\<close>

text \<open>
  \<open>keyword_pattern\<close>: a word boundary, then the first alternative that matches, letters
  compared without case. An alternative is a literal, or a literal followed by \<open>\w+\<close>.
\<close>

datatype alt = Lit string | LitWords string

definition keyword_alts :: "alt list" where
  "keyword_alts =
     [Lit ''get'', Lit ''set'', Lit ''to_'', Lit ''from_'', Lit ''format'', Lit ''util'',
      Lit ''helper'', Lit ''json'', Lit ''str'', Lit ''parse'', LitWords ''is_'',
      LitWords ''has_'', Lit ''len('', Lit ''join('', Lit ''split('']"

fun match_alt :: "alt \<Rightarrow> string \<Rightarrow> nat option" where
  "match_alt (Lit p) s = (if lower (take (length p) s) = p then Some (length p) else None)"
| "match_alt (LitWords p) s =
     (if lower (take (length p) s) = p \<and> takeWhile is_word (drop (length p) s) \<noteq> []
      then Some (length p + length (takeWhile is_word (drop (length p) s)))
      else None)"

fun first_match :: "alt list \<Rightarrow> string \<Rightarrow> nat option" where
  "first_match [] s = None"
| "first_match (a # as) s = (case match_alt a s of Some n \<Rightarrow> Some n | None \<Rightarrow> first_match as s)"

text \<open>
  \<open>len(keyword_pattern.findall(s))\<close>: the scan from left to right, matches not
  overlapping. \<open>skip\<close> counts the characters of the current match still to pass,
  \<open>pw\<close> says whether the character before is a word character.
\<close>

fun keyword_scan :: "nat \<Rightarrow> bool \<Rightarrow> string \<Rightarrow> nat" where
  "keyword_scan skip pw [] = 0"
| "keyword_scan (Suc k) pw (c # cs) = keyword_scan k (is_word c) cs"
| "keyword_scan 0 pw (c # cs) =
     (if pw \<noteq> is_word c
      then (case first_match keyword_alts (c # cs) of
              Some n \<Rightarrow> 1 + keyword_scan (n - 1) (is_word c) cs
            | None \<Rightarrow> keyword_scan 0 (is_word c) cs)
      else keyword_scan 0 (is_word c) cs)"

definition keyword_matches_of :: "string \<Rightarrow> nat" where
  "keyword_matches_of s = keyword_scan 0 False s"

section \<open>Feature extraction: one row per node\<close>

definition loc_of :: "string \<Rightarrow> nat" where
  "loc_of s = length (filter (\<lambda>ln. strip ln \<noteq> []) (splitlines s))"

definition one_liner_of :: "string \<Rightarrow> int" where
  "one_liner_of s = (if loc_of s \<le> 3 \<and> length (splitlines (strip s)) \<le> 3 then 1 else 0)"

definition code_snippet_of :: "string \<Rightarrow> string" where
  "code_snippet_of s = (if length s > 1000 then take 1000 s @ ''...'' else s)"

text \<open>
  A node of the input is any JSON value. \<open>original_node\<close> is the copy the loop works on:
  the dictionary itself, or for another value a dictionary holding its text as the id.
\<close>

datatype node = NDict row | NOther pyval

fun original_node :: "(pyval \<Rightarrow> string) \<Rightarrow> node \<Rightarrow> row" where
  "original_node render (NDict d) = d"
| "original_node render (NOther v) = [''id'' \<mapsto> PStr (py_str render v)]"

text \<open>\<open>x or ""\<close>\<close>

definition or_empty :: "pyval \<Rightarrow> pyval" where
  "or_empty v = (if truthy v then v else PStr [])"

definition build_row :: "(string \<Rightarrow> ast option) \<Rightarrow> (pyval \<Rightarrow> string) \<Rightarrow> node \<Rightarrow> row" where
  "build_row parse render nd =
     (let original = original_node render nd;
          node_id = getd original ''id'' PNone;
          label = or_empty (getd original ''label'' (PStr []));
          code = or_empty (getd original ''code'' (PStr []));
          text = py_str render code;
          loc = loc_of text;
          tree = safe_parse parse code;
          complexity = compute_cyclomatic_complexity tree;
          num_funcs = count_nodes_of_type tree is_FunctionDef;
          num_params = num_params_of tree;
          num_calls = count_nodes_of_type tree (\<lambda>k. k = Call);
          num_returns = count_nodes_of_type tree (\<lambda>k. k = Return);
          num_assigns = count_nodes_of_type tree (\<lambda>k. k = Assign)
                        + count_nodes_of_type tree (\<lambda>k. k = AugAssign);
          num_imports = count_nodes_of_type tree (\<lambda>k. k = Import)
                        + count_nodes_of_type tree (\<lambda>k. k = ImportFrom);
          doc_len = extract_docstring_length tree;
          keyword_matches = keyword_matches_of text;
          one_liner = one_liner_of text;
          annotated = has_type_annotations text
      in original
           (''id'' \<mapsto> node_id,
            ''label'' \<mapsto> label,
            ''loc'' \<mapsto> PInt (int loc),
            ''complexity'' \<mapsto> PFloat (real complexity),
            ''num_funcs'' \<mapsto> PInt (int num_funcs),
            ''num_params'' \<mapsto> PInt (int num_params),
            ''num_calls'' \<mapsto> PInt (int num_calls),
            ''num_returns'' \<mapsto> PInt (int num_returns),
            ''num_assigns'' \<mapsto> PInt (int num_assigns),
            ''num_imports'' \<mapsto> PInt (int num_imports),
            ''doc_len'' \<mapsto> PInt (int doc_len),
            ''keyword_matches'' \<mapsto> PInt (int keyword_matches),
            ''one_liner'' \<mapsto> PInt one_liner,
            ''has_type_annotations'' \<mapsto> PInt annotated,
            ''code_snippet'' \<mapsto> PStr (code_snippet_of text)))"

section \<open>Normalisation\<close>

definition numeric_cols :: "string list" where
  "numeric_cols = [''loc'', ''complexity'', ''num_funcs'', ''num_params'', ''num_calls'',
                   ''num_returns'', ''num_assigns'', ''num_imports'', ''doc_len'',
                   ''keyword_matches'']"

definition min_max :: "real list \<Rightarrow> real list" where
  "min_max vals =
     (if vals = [] then []
      else (let mn = Min (set vals); mx = Max (set vals)
            in if \<bar>mx - mn\<bar> < 1 / 10 ^ 12 then map (\<lambda>v. 0) vals
               else map (\<lambda>v. (v - mn) / (mx - mn)) vals))"

text \<open>
  \<open>col_vals[c]\<close>, the column \<open>c\<close> of all rows; \<open>None\<close> when a value is not a number, where
  \<open>min_max\<close> raises \<open>TypeError\<close>.
\<close>

definition col_vals :: "row list \<Rightarrow> string \<Rightarrow> real list option" where
  "col_vals rows c = those (map (\<lambda>r. to_num (getd r c (PInt 0))) rows)"

definition set_norms :: "(string \<times> real list) list \<Rightarrow> nat \<Rightarrow> row \<Rightarrow> row" where
  "set_norms col_norm i r = foldl (\<lambda>r (c, nv). r(c @ ''_norm'' \<mapsto> PFloat (nv ! i))) r col_norm"

definition normalize :: "row list \<Rightarrow> row list option" where
  "normalize rows =
     (case those (map (col_vals rows) numeric_cols) of
        None \<Rightarrow> None
      | Some vss \<Rightarrow>
          (let col_norm = zip numeric_cols (map min_max vss)
           in Some (map (\<lambda>(i, r). set_norms col_norm i r) (enumerate 0 rows))))"

section \<open>The heuristic scorer\<close>

definition weights :: "string \<Rightarrow> real" where
  "weights k =
     (if k = ''loc_norm'' then 0.35
      else if k = ''complexity_norm'' then 0.20
      else if k = ''num_calls_norm'' then 0.05
      else if k = ''num_params_norm'' then 0.05
      else if k = ''keyword_matches_norm'' then 0.20
      else if k = ''doc_len_norm'' then 0.05
      else if k = ''num_imports_norm'' then 0.05
      else 0)"

definition critical_names :: "string list" where
  "critical_names = [''__init__'', ''decorator'', ''on_event'', ''setup'', ''configure'', ''mount'']"

definition critical_files :: "string list" where
  "critical_files = [''applications'', ''routing'', ''endpoints'', ''schemas'', ''models'']"

text \<open>The weighted sum; \<open>None\<close> is the \<open>TypeError\<close> of a value that is not a number.\<close>

definition weighted_score :: "row \<Rightarrow> real option" where
  "weighted_score r =
     do {
       loc_n \<leftarrow> to_num (getd r ''loc_norm'' (PFloat 0));
       comp_n \<leftarrow> to_num (getd r ''complexity_norm'' (PFloat 0));
       calls_n \<leftarrow> to_num (getd r ''num_calls_norm'' (PFloat 0));
       params_n \<leftarrow> to_num (getd r ''num_params_norm'' (PFloat 0));
       kw_n \<leftarrow> to_num (getd r ''keyword_matches_norm'' (PFloat 0));
       doc_n \<leftarrow> to_num (getd r ''doc_len_norm'' (PFloat 0));
       imports_n \<leftarrow> to_num (getd r ''num_imports_norm'' (PFloat 0));
       Some (weights ''loc_norm'' * (1 - loc_n) +
             weights ''complexity_norm'' * (1 - comp_n) +
             weights ''num_calls_norm'' * (1 - calls_n) +
             weights ''num_params_norm'' * (1 - params_n) +
             weights ''keyword_matches_norm'' * kw_n +
             weights ''doc_len_norm'' * (1 - doc_n) +
             weights ''num_imports_norm'' * (1 - imports_n))
     }"

text \<open>
  The conditions of the three adjustments. \<open>and\<close> and \<open>or\<close> stop at the first operand
  that decides, so a later comparison that would raise is not reached.
\<close>

definition trivial_condition :: "row \<Rightarrow> bool option" where
  "trivial_condition r =
     (if \<not> truthy (getd r ''one_liner'' (PInt 0)) then Some False
      else do {
        calls \<leftarrow> to_num (getd r ''num_calls'' (PInt 0));
        if \<not> calls \<le> 1 then Some False
        else do {
          complexity \<leftarrow> to_num (getd r ''complexity'' (PInt 0));
          Some (complexity \<le> 2)
        }
      })"

definition critical_condition :: "(pyval \<Rightarrow> string) \<Rightarrow> row \<Rightarrow> bool" where
  "critical_condition render r =
     (let name = lower (py_str render (getd r ''label'' (PStr [])));
          file_id = lower (py_str render (getd r ''id'' (PStr [])))
      in list_ex (\<lambda>k. isin k name) critical_names \<or> list_ex (\<lambda>f. isin f file_id) critical_files)"

definition documented_condition :: "row \<Rightarrow> bool option" where
  "documented_condition r =
     (if truthy (getd r ''has_type_annotations'' (PInt 0)) then Some True
      else do {
        doc_len \<leftarrow> to_num (getd r ''doc_len'' (PInt 0));
        Some (doc_len > 80)
      })"

definition compute_triviality :: "(pyval \<Rightarrow> string) \<Rightarrow> row \<Rightarrow> real option" where
  "compute_triviality render r =
     do {
       score \<leftarrow> weighted_score r;
       trivial \<leftarrow> trivial_condition r;
       let score = (if trivial then min 1 (score + 0.10) else score);
       let score = (if critical_condition render r then max 0 (score - 0.15) else score);
       documented \<leftarrow> documented_condition r;
       let score = (if documented then max 0 (score - 0.08) else score);
       Some (max 0 (min 1 score))
     }"

text \<open>\<open>round(x, 4)\<close>: to the nearest multiple of one ten-thousandth, a tie to the even one.\<close>

definition round_half_even :: "real \<Rightarrow> int" where
  "round_half_even y =
     (let f = \<lfloor>y\<rfloor>; d = y - of_int f
      in if d < 1 / 2 then f else if d > 1 / 2 then f + 1 else if even f then f else f + 1)"

definition round4 :: "real \<Rightarrow> real" where
  "round4 x = of_int (round_half_even (x * 10000)) / 10000"

definition score_row :: "(pyval \<Rightarrow> string) \<Rightarrow> row \<Rightarrow> row option" where
  "score_row render r =
     do {
       t \<leftarrow> compute_triviality render r;
       let triviality = round4 t;
       Some (r(''triviality'' \<mapsto> PFloat triviality,
               ''importance'' \<mapsto> PFloat (round4 (1 - triviality))))
     }"

text \<open>
  \<open>sorted(rows, key=importance, reverse=True)\<close>: descending, rows of equal importance in
  their original order.
\<close>

definition sort_by_importance :: "row list \<Rightarrow> row list option" where
  "sort_by_importance rows =
     do {
       keys \<leftarrow> those (map (\<lambda>r. to_num (getd r ''importance'' (PFloat 0))) rows);
       Some (map snd (sort_key (\<lambda>p. - fst p) (zip keys rows)))
     }"

text \<open>The ranking script from the loaded nodes to the rows it writes.\<close>

definition rank_functions ::
    "(string \<Rightarrow> ast option) \<Rightarrow> (pyval \<Rightarrow> string) \<Rightarrow> node list \<Rightarrow> row list option" where
  "rank_functions parse render nodes =
     do {
       let rows = map (build_row parse render) nodes;
       rows \<leftarrow> normalize rows;
       rows \<leftarrow> those (map (score_row render) rows);
       sort_by_importance rows
     }"

text \<open>The keys that normalisation adds, and all the keys that the ranking script writes.\<close>

definition norm_keys :: "string list" where
  "norm_keys = map (\<lambda>c. c @ ''_norm'') numeric_cols"

definition written_keys :: "string list" where
  "written_keys =
     [''id'', ''label'', ''loc'', ''complexity'', ''num_funcs'', ''num_params'', ''num_calls'',
      ''num_returns'', ''num_assigns'', ''num_imports'', ''doc_len'', ''keyword_matches'',
      ''one_liner'', ''has_type_annotations'', ''code_snippet'']
     @ norm_keys @ [''triviality'', ''importance'']"


section \<open>What the scorer reads\<close>

text \<open>The keys of a row that \<open>compute_triviality\<close> looks up.\<close>

definition scorer_keys :: "string list" where
  "scorer_keys =
     [''loc_norm'', ''complexity_norm'', ''num_calls_norm'', ''num_params_norm'',
      ''keyword_matches_norm'', ''doc_len_norm'', ''num_imports_norm'',
      ''one_liner'', ''num_calls'', ''complexity'', ''label'', ''id'',
      ''has_type_annotations'', ''doc_len'']"

text \<open>
  A row as the script builds it for the one-line text \<open>return 5\<close> in a corpus whose
  metrics do not vary, with the label left open.
\<close>

definition example_row :: "string \<Rightarrow> row" where
  "example_row label =
     [''id'' \<mapsto> PStr ''a'', ''label'' \<mapsto> PStr label,
      ''loc'' \<mapsto> PInt 1, ''complexity'' \<mapsto> PFloat 1, ''num_calls'' \<mapsto> PInt 0,
      ''doc_len'' \<mapsto> PInt 0, ''one_liner'' \<mapsto> PInt 1, ''has_type_annotations'' \<mapsto> PInt 0,
      ''loc_norm'' \<mapsto> PFloat 0, ''complexity_norm'' \<mapsto> PFloat 0,
      ''num_funcs_norm'' \<mapsto> PFloat 0, ''num_params_norm'' \<mapsto> PFloat 0,
      ''num_calls_norm'' \<mapsto> PFloat 0, ''num_returns_norm'' \<mapsto> PFloat 0,
      ''num_assigns_norm'' \<mapsto> PFloat 0, ''num_imports_norm'' \<mapsto> PFloat 0,
      ''doc_len_norm'' \<mapsto> PFloat 0, ''keyword_matches_norm'' \<mapsto> PFloat 0]"

section \<open>A unit that is a single return of a constant\<close>



definition return_constant_wrapped :: ast where
  "return_constant_wrapped =
     Node (Module None) [Node (FunctionDef 0 None) [Node Other [], Node Return [Node Other []]]]"


text \<open>A parser for the examples: it rejects every text but the wrapped \<open>return 5\<close>.\<close>

definition example_parse :: "string \<Rightarrow> ast option" where
  "example_parse s = (if s = wrap_code ''return 5'' then Some return_constant_wrapped else None)"

section \<open>The verification command\<close>

text \<open>
  An id is whatever the file holds under the key: any JSON value in the two JSON files
  (\<open>None\<close> for a dictionary without the key), a string or \<open>None\<close> in a row of the
  CSV table. An exception that nothing catches ends the command with exit status 1; it is
  the value \<open>None\<close> of the steps below.
\<close>
















text \<open>
  The three loaders. The input file and the ranked JSON hold a list of nodes; \<open>n.get\<close>
  raises \<open>AttributeError\<close> for a node that is not a dictionary. A ranked file is
  \<open>None\<close> when it does not exist, and has no ids then. A row of the CSV table maps the
  names of the header to the cells of the row.
\<close>

definition node_id :: "node \<Rightarrow> pyval option" where
  "node_id n = (case n of NDict d \<Rightarrow> Some (getd d ''id'' PNone) | NOther v \<Rightarrow> None)"









section \<open>The ranking script on a store of dictionaries\<close>

text \<open>
  A dictionary is an object: two names of one dictionary see each other's updates. The
  store lists the dictionaries in the order of their creation, and the address of a
  dictionary is its index in the store. A loaded node is the address of a dictionary, or a
  value of another kind.
\<close>

type_synonym store = "row list"

datatype nref = RDict nat | ROther pyval

definition deref :: "store \<Rightarrow> nref \<Rightarrow> node" where
  "deref h n = (case n of RDict a \<Rightarrow> NDict (h ! a) | ROther v \<Rightarrow> NOther v)"

definition valid_nref :: "store \<Rightarrow> nref \<Rightarrow> bool" where
  "valid_nref h n = (case n of RDict a \<Rightarrow> a < length h | ROther v \<Rightarrow> True)"

text \<open>
  The loop over the nodes: \<open>dict(node)\<close> and \<open>dict(original_node)\<close> copy, so the row is
  a new dictionary, filled before it is appended to \<open>rows\<close>; the node is only read.
\<close>

fun extract_stage ::
    "(string \<Rightarrow> ast option) \<Rightarrow> (pyval \<Rightarrow> string) \<Rightarrow> nref list \<Rightarrow> store \<Rightarrow> nat list \<Rightarrow> store \<times> nat list" where
  "extract_stage parse render [] h rows = (h, rows)"
| "extract_stage parse render (n # nodes) h rows =
     extract_stage parse render nodes (h @ [build_row parse render (deref h n)]) (rows @ [length h])"

text \<open>
  \<open>for i, r in enumerate(rows): for c in numeric_cols: r[c + "_norm"] = ...\<close> assigns into
  the dictionaries that \<open>rows\<close> holds.
\<close>

fun normalize_rows :: "(string \<times> real list) list \<Rightarrow> nat \<Rightarrow> nat list \<Rightarrow> store \<Rightarrow> store" where
  "normalize_rows col_norm i [] h = h"
| "normalize_rows col_norm i (a # rows) h =
     normalize_rows col_norm (Suc i) rows (h[a := set_norms col_norm i (h ! a)])"

definition normalize_stage :: "nat list \<Rightarrow> store \<Rightarrow> store option" where
  "normalize_stage rows h =
     (case those (map (col_vals (map (nth h) rows)) numeric_cols) of
        None \<Rightarrow> None
      | Some vss \<Rightarrow> Some (normalize_rows (zip numeric_cols (map min_max vss)) 0 rows h))"

text \<open>
  \<open>for r in rows: r["triviality"] = ...; r["importance"] = ...\<close> assigns into the same
  dictionaries.
\<close>

fun score_stage :: "(pyval \<Rightarrow> string) \<Rightarrow> nat list \<Rightarrow> store \<Rightarrow> store option" where
  "score_stage render [] h = Some h"
| "score_stage render (a # rows) h =
     do {
       r \<leftarrow> score_row render (h ! a);
       score_stage render rows (h[a := r])
     }"

text \<open>\<open>sorted\<close> makes a new list of the same dictionaries.\<close>

definition sort_stage :: "nat list \<Rightarrow> store \<Rightarrow> nat list option" where
  "sort_stage rows h =
     do {
       keys \<leftarrow> those (map (\<lambda>a. to_num (getd (h ! a) ''importance'' (PFloat 0))) rows);
       Some (map snd (sort_key (\<lambda>p. - fst p) (zip keys rows)))
     }"

text \<open>The script: the store it leaves and the addresses of the rows it writes, in order.\<close>

definition rank_store ::
    "(string \<Rightarrow> ast option) \<Rightarrow> (pyval \<Rightarrow> string) \<Rightarrow> nref list \<Rightarrow> store \<Rightarrow> (store \<times> nat list) option" where
  "rank_store parse render nodes h =
     (case extract_stage parse render nodes h [] of
        (h1, rows) \<Rightarrow>
          do {
            h2 \<leftarrow> normalize_stage rows h1;
            h3 \<leftarrow> score_stage render rows h2;
            rows_sorted \<leftarrow> sort_stage rows h3;
            Some (h3, rows_sorted)
          })"

text \<open>The entries of a row under the keys that the script does not write.\<close>

definition pass_through :: "row \<Rightarrow> row" where
  "pass_through r = (\<lambda>k. if k \<in> set written_keys then None else r k)"

text \<open>
  A stage as the specification words it: it leaves every dictionary that exists before it
  as it was.
\<close>

definition spec_not_mutated :: "store \<Rightarrow> store option \<Rightarrow> bool" where
  "spec_not_mutated h res = (case res of None \<Rightarrow> True | Some h' \<Rightarrow> take (length h) h' = h)"

text \<open>The store of the examples: one node, with a field that the script does not know.\<close>

definition example_store :: store where
  "example_store = [[''id'' \<mapsto> PStr ''a'', ''code'' \<mapsto> PStr ''return 5'', ''owner'' \<mapsto> PStr ''core'']]"

section \<open>The type-annotation flag\<close>

lemma isin_iff: "isin k s \<longleftrightarrow> (\<exists>pre post. s = pre @ k @ post)"
proof (induction s)
  case Nil
  then show ?case by auto
next
  case (Cons c cs)
  show ?case
  proof
    assume "isin k (c # cs)"
    then consider "take (length k) (c # cs) = k" | "isin k cs" by auto
    then show "\<exists>pre post. c # cs = pre @ k @ post"
    proof cases
      case 1
      then have "c # cs = [] @ k @ drop (length k) (c # cs)"
        by (metis append_Nil append_take_drop_id)
      then show ?thesis by blast
    next
      case 2
      with Cons obtain pre post where "cs = pre @ k @ post" by blast
      then have "c # cs = (c # pre) @ k @ post" by simp
      then show ?thesis by blast
    qed
  next
    assume "\<exists>pre post. c # cs = pre @ k @ post"
    then obtain pre post where h: "c # cs = pre @ k @ post" by blast
    show "isin k (c # cs)"
    proof (cases pre)
      case Nil
      with h have "take (length k) (c # cs) = k" by simp
      then show ?thesis by simp
    next
      case (Cons a pre')
      with h have "cs = pre' @ k @ post" by simp
      with Cons.IH show ?thesis by auto
    qed
  qed
qed

lemma space_not_word: "is_space c \<Longrightarrow> \<not> is_word c"
  by (auto simp: is_space_def is_word_def Let_def)

lemma ws_then_word_iff:
  "ws_then_word s \<longleftrightarrow> (\<exists>ws w post. s = ws @ w # post \<and> (\<forall>c\<in>set ws. is_space c) \<and> is_word w)"
proof (induction s)
  case Nil
  then show ?case by simp
next
  case (Cons c cs)
  show ?case
  proof
    assume a: "ws_then_word (c # cs)"
    show "\<exists>ws w post. c # cs = ws @ w # post \<and> (\<forall>c\<in>set ws. is_space c) \<and> is_word w"
    proof (cases "is_space c")
      case True
      with a Cons obtain ws w post
        where "cs = ws @ w # post" "\<forall>c\<in>set ws. is_space c" "is_word w" by auto
      with True have "c # cs = (c # ws) @ w # post \<and> (\<forall>c\<in>set (c # ws). is_space c) \<and> is_word w"
        by simp
      then show ?thesis by blast
    next
      case False
      with a have "c # cs = [] @ c # cs \<and> (\<forall>c\<in>set []. is_space c) \<and> is_word c" by simp
      then show ?thesis by blast
    qed
  next
    assume "\<exists>ws w post. c # cs = ws @ w # post \<and> (\<forall>c\<in>set ws. is_space c) \<and> is_word w"
    then obtain ws w post
      where h: "c # cs = ws @ w # post" "\<forall>c\<in>set ws. is_space c" "is_word w" by blast
    show "ws_then_word (c # cs)"
    proof (cases ws)
      case Nil
      with h show ?thesis by (auto dest: space_not_word)
    next
      case (Cons a ws')
      with h have "is_space c" "cs = ws' @ w # post" "\<forall>c\<in>set ws'. is_space c" by auto
      with h Cons.IH show ?thesis by auto
    qed
  qed
qed

lemma search_colon_word_iff:
  "search_colon_word s \<longleftrightarrow>
     (\<exists>pre ws w post. s = pre @ CHR '':'' # ws @ w # post \<and> (\<forall>c\<in>set ws. is_space c) \<and> is_word w)"
proof (induction s)
  case Nil
  then show ?case by simp
next
  case (Cons c cs)
  show ?case
  proof
    assume "search_colon_word (c # cs)"
    then consider "c = CHR '':''" "ws_then_word cs" | "search_colon_word cs" by auto
    then show "\<exists>pre ws w post. c # cs = pre @ CHR '':'' # ws @ w # post
                 \<and> (\<forall>c\<in>set ws. is_space c) \<and> is_word w"
    proof cases
      case 1
      then obtain ws w post
        where "cs = ws @ w # post" "\<forall>c\<in>set ws. is_space c" "is_word w"
        using ws_then_word_iff by blast
      with 1 have "c # cs = [] @ CHR '':'' # ws @ w # post \<and> (\<forall>c\<in>set ws. is_space c) \<and> is_word w"
        by simp
      then show ?thesis by blast
    next
      case 2
      with Cons obtain pre ws w post
        where "cs = pre @ CHR '':'' # ws @ w # post" "\<forall>c\<in>set ws. is_space c" "is_word w"
        by blast
      then have "c # cs = (c # pre) @ CHR '':'' # ws @ w # post
                 \<and> (\<forall>c\<in>set ws. is_space c) \<and> is_word w" by simp
      then show ?thesis by blast
    qed
  next
    assume "\<exists>pre ws w post. c # cs = pre @ CHR '':'' # ws @ w # post
              \<and> (\<forall>c\<in>set ws. is_space c) \<and> is_word w"
    then obtain pre ws w post
      where h: "c # cs = pre @ CHR '':'' # ws @ w # post" "\<forall>c\<in>set ws. is_space c" "is_word w"
      by blast
    show "search_colon_word (c # cs)"
    proof (cases pre)
      case Nil
      with h have "c = CHR '':''" "ws_then_word cs" using ws_then_word_iff by auto
      then show ?thesis by simp
    next
      case (Cons a pre')
      with h have "cs = pre' @ CHR '':'' # ws @ w # post" by simp
      with h Cons.IH have "search_colon_word cs" by blast
      then show ?thesis by simp
    qed
  qed
qed

lemma search_colon_word_isin: "search_colon_word s \<Longrightarrow> isin '':'' s"
  by (induction s) auto

text \<open>
  Claim C7, as the specification words it, fails: in \<open>": x"\<close> the colon is followed by a
  blank, not by a word character, and there is no arrow, yet the flag is set.
\<close>

theorem has_type_annotations_counterexample:
  "has_type_annotations '': x'' = 1 \<and> \<not> spec_has_type_annotations '': x''"
  by (simp add: has_type_annotations_def spec_has_type_annotations_def is_space_def is_word_def)

text \<open>
  Claim C7, amended: the flag is set if and only if the text contains both a colon and an
  arrow, or contains a colon followed by any run of whitespace (possibly none) and then a
  word character.
\<close>

theorem has_type_annotations_iff:
  "has_type_annotations s = 1 \<longleftrightarrow>
     (isin '':'' s \<and> isin ''->'' s) \<or>
     (\<exists>pre ws w post. s = pre @ CHR '':'' # ws @ w # post \<and> (\<forall>c\<in>set ws. is_space c) \<and> is_word w)"
  unfolding search_colon_word_iff [symmetric]
  using search_colon_word_isin [of s] by (auto simp: has_type_annotations_def)

theorem has_type_annotations_iff_witness:
  "has_type_annotations '': x'' = 1 \<and>
   (\<exists>pre ws w post. '': x'' = pre @ CHR '':'' # ws @ w # post \<and> (\<forall>c\<in>set ws. is_space c) \<and> is_word w)"
proof -
  have a: "has_type_annotations '': x'' = 1"
    by (simp add: has_type_annotations_def is_space_def is_word_def)
  have b: "\<not> isin ''->'' '': x''" by simp
  from a b show ?thesis using has_type_annotations_iff [of "'': x''"] by blast
qed

section \<open>The scorer stays in range\<close>

lemma compute_triviality_range:
  assumes "compute_triviality render r = Some t"
  shows "0 \<le> t \<and> t \<le> 1"
proof -
  from assms obtain s :: real where "t = max 0 (min 1 s)"
    unfolding compute_triviality_def Let_def
    by (auto simp: bind_eq_Some_conv simp del: max.bounded_iff min.bounded_iff split del: if_split)
  then show ?thesis by simp
qed

lemma round_half_even_int: "round_half_even (of_int n) = n"
  by (simp add: round_half_even_def)

lemma round_half_even_lower: "of_int n \<le> y \<Longrightarrow> n \<le> round_half_even y"
proof -
  assume "of_int n \<le> y"
  then have "n \<le> \<lfloor>y\<rfloor>" by (simp add: le_floor_iff)
  then show ?thesis by (simp add: round_half_even_def Let_def)
qed

lemma round_half_even_upper: "y \<le> of_int n \<Longrightarrow> round_half_even y \<le> n"
proof (cases "y = of_int n")
  case True
  then show ?thesis by (simp add: round_half_even_int)
next
  case False
  assume "y \<le> of_int n"
  with False have "y < of_int n" by simp
  then have "\<lfloor>y\<rfloor> < n" by (simp add: floor_less_iff)
  then show ?thesis by (simp add: round_half_even_def Let_def)
qed

lemma round4_range: "0 \<le> x \<Longrightarrow> x \<le> 1 \<Longrightarrow> 0 \<le> round4 x \<and> round4 x \<le> 1"
proof -
  assume a: "0 \<le> x" "x \<le> 1"
  have "of_int 0 \<le> x * 10000" using a by simp
  then have lo: "0 \<le> round_half_even (x * 10000)" by (rule round_half_even_lower)
  have "x * 10000 \<le> of_int 10000" using a by simp
  then have hi: "round_half_even (x * 10000) \<le> 10000" by (rule round_half_even_upper)
  from lo hi show ?thesis by (simp add: round4_def)
qed

lemma round4_complement: "round4 (1 - round4 x) = 1 - round4 x"
proof -
  have "(1 - round4 x) * 10000 = of_int (10000 - round_half_even (x * 10000))"
    by (simp add: round4_def algebra_simps)
  then have "round_half_even ((1 - round4 x) * 10000) = 10000 - round_half_even (x * 10000)"
    by (simp only: round_half_even_int)
  then show ?thesis by (simp add: round4_def[of "1 - round4 x"]) (simp add: round4_def field_simps)
qed

lemma score_row_invariant:
  assumes "score_row render r = Some r'"
  shows "\<exists>t i. r' ''triviality'' = Some (PFloat t) \<and> r' ''importance'' = Some (PFloat i)
            \<and> t + i = 1 \<and> 0 \<le> t \<and> t \<le> 1 \<and> 0 \<le> i \<and> i \<le> 1"
proof -
  from assms obtain t where t: "compute_triviality render r = Some t"
    and r': "r' = r(''triviality'' \<mapsto> PFloat (round4 t),
                    ''importance'' \<mapsto> PFloat (round4 (1 - round4 t)))"
    by (auto simp: score_row_def Let_def split: Option.bind_splits)
  from t have "0 \<le> t \<and> t \<le> 1" by (rule compute_triviality_range)
  then have rg: "0 \<le> round4 t \<and> round4 t \<le> 1" by (simp add: round4_range)
  have c: "round4 (1 - round4 t) = 1 - round4 t" by (rule round4_complement)
  show ?thesis using rg by (simp add: r' c)
qed

section \<open>Normalisation keeps the rows and adds its keys\<close>

lemma those_map_Some:
  "(\<forall>x\<in>set xs. f x \<noteq> None) \<Longrightarrow> \<exists>ys. those (map f xs) = Some ys"
  by (induction xs) auto

lemma those_map_nth:
  "those (map f xs) = Some ys \<Longrightarrow> length ys = length xs \<and> (\<forall>i<length xs. f (xs ! i) = Some (ys ! i))"
proof (induction xs arbitrary: ys)
  case Nil
  then show ?case by simp
next
  case (Cons x xs)
  then obtain y ys' where y: "f x = Some y" "those (map f xs) = Some ys'" "ys = y # ys'"
    by (auto split: option.splits)
  with Cons.IH[of ys'] show ?case by (auto simp: nth_Cons split: nat.splits)
qed

lemma set_norms_snoc:
  "set_norms (cn @ [(c, nv)]) i r = (set_norms cn i r)(c @ ''_norm'' \<mapsto> PFloat (nv ! i))"
  by (simp add: set_norms_def)

lemma set_norms_other:
  "k \<notin> (\<lambda>p. fst p @ ''_norm'') ` set cn \<Longrightarrow> set_norms cn i r k = r k"
proof (induction cn rule: rev_induct)
  case Nil
  then show ?case by (simp add: set_norms_def)
next
  case (snoc p cn)
  obtain c nv where p: "p = (c, nv)" by (cases p)
  from snoc show ?case by (auto simp: p set_norms_snoc)
qed

lemma set_norms_norm:
  "k \<in> (\<lambda>p. fst p @ ''_norm'') ` set cn \<Longrightarrow> \<exists>x. set_norms cn i r k = Some (PFloat x)"
proof (induction cn rule: rev_induct)
  case Nil
  then show ?case by simp
next
  case (snoc p cn)
  obtain c nv where p: "p = (c, nv)" by (cases p)
  show ?case
  proof (cases "k = c @ ''_norm''")
    case True
    then show ?thesis by (simp add: p set_norms_snoc)
  next
    case False
    with snoc.prems have "k \<in> (\<lambda>p. fst p @ ''_norm'') ` set cn" by (auto simp: p)
    with snoc.IH False show ?thesis by (simp add: p set_norms_snoc)
  qed
qed

lemma normalize_Some:
  assumes "normalize rows = Some rows'"
  shows "length rows' = length rows"
    and "i < length rows \<Longrightarrow> k \<notin> set norm_keys \<Longrightarrow> (rows' ! i) k = (rows ! i) k"
    and "i < length rows \<Longrightarrow> k \<in> set norm_keys \<Longrightarrow> \<exists>x. (rows' ! i) k = Some (PFloat x)"
proof -
  from assms obtain vss where vss: "those (map (col_vals rows) numeric_cols) = Some vss"
    and r': "rows' = map (\<lambda>(i, r). set_norms (zip numeric_cols (map min_max vss)) i r) (enumerate 0 rows)"
    by (auto simp: normalize_def Let_def split: option.splits)
  from vss have len: "length vss = length numeric_cols" using those_map_nth by blast
  have keys: "(\<lambda>p. fst p @ ''_norm'') ` set (zip numeric_cols (map min_max vss)) = set norm_keys"
  proof -
    have "map fst (zip numeric_cols (map min_max vss)) = numeric_cols"
      using len by (simp add: map_fst_zip)
    then have "map (\<lambda>p. fst p @ ''_norm'') (zip numeric_cols (map min_max vss)) = norm_keys"
      unfolding norm_keys_def by (metis (no_types, lifting) map_map comp_apply map_eq_conv)
    then show ?thesis by (metis set_map)
  qed
  show "length rows' = length rows" by (simp add: r')
  show "i < length rows \<Longrightarrow> k \<notin> set norm_keys \<Longrightarrow> (rows' ! i) k = (rows ! i) k"
    using keys by (simp add: r' nth_enumerate_eq set_norms_other)
  show "i < length rows \<Longrightarrow> k \<in> set norm_keys \<Longrightarrow> \<exists>x. (rows' ! i) k = Some (PFloat x)"
    using keys by (simp add: r' nth_enumerate_eq set_norms_norm)
qed

lemma normalize_total:
  assumes "\<forall>r\<in>set rows. \<forall>c\<in>set numeric_cols. to_num (getd r c (PInt 0)) \<noteq> None"
  shows "\<exists>rows'. normalize rows = Some rows'"
proof -
  have "\<forall>c\<in>set numeric_cols. col_vals rows c \<noteq> None"
  proof
    fix c assume "c \<in> set numeric_cols"
    with assms have "\<forall>r\<in>set rows. to_num (getd r c (PInt 0)) \<noteq> None" by blast
    then have "\<exists>ys. those (map (\<lambda>r. to_num (getd r c (PInt 0))) rows) = Some ys"
      by (rule those_map_Some)
    then show "col_vals rows c \<noteq> None" by (auto simp: col_vals_def)
  qed
  then obtain vss where "those (map (col_vals rows) numeric_cols) = Some vss"
    using those_map_Some by blast
  then show ?thesis by (simp add: normalize_def Let_def)
qed

section \<open>The rows that the extraction loop builds\<close>

lemma build_row_shape:
  "\<exists>loc cx nf np nc nr na ni dl kw ol ann snip.
     build_row parse render nd =
       (original_node render nd)
         (''id'' \<mapsto> getd (original_node render nd) ''id'' PNone,
          ''label'' \<mapsto> or_empty (getd (original_node render nd) ''label'' (PStr [])),
          ''loc'' \<mapsto> PInt loc,
          ''complexity'' \<mapsto> PFloat cx,
          ''num_funcs'' \<mapsto> PInt nf,
          ''num_params'' \<mapsto> PInt np,
          ''num_calls'' \<mapsto> PInt nc,
          ''num_returns'' \<mapsto> PInt nr,
          ''num_assigns'' \<mapsto> PInt na,
          ''num_imports'' \<mapsto> PInt ni,
          ''doc_len'' \<mapsto> PInt dl,
          ''keyword_matches'' \<mapsto> PInt kw,
          ''one_liner'' \<mapsto> PInt ol,
          ''has_type_annotations'' \<mapsto> PInt ann,
          ''code_snippet'' \<mapsto> PStr snip)"
  unfolding build_row_def Let_def by blast

lemma build_row_numeric:
  assumes "c \<in> set numeric_cols"
  shows "to_num (getd (build_row parse render nd) c (PInt 0)) \<noteq> None"
  using assms build_row_shape [of parse render nd]
  by (elim exE) (auto simp: numeric_cols_def getd_def)

lemma build_row_other:
  assumes "k \<notin> set written_keys"
  shows "build_row parse render nd k = original_node render nd k"
  using assms build_row_shape [of parse render nd]
  by (elim exE) (simp add: written_keys_def)

lemma build_row_scored_keys:
  "to_num (getd (build_row parse render nd) ''num_calls'' (PInt 0)) \<noteq> None"
  "to_num (getd (build_row parse render nd) ''complexity'' (PInt 0)) \<noteq> None"
  "to_num (getd (build_row parse render nd) ''doc_len'' (PInt 0)) \<noteq> None"
  using build_row_shape [of parse render nd]
  by (elim exE, simp add: getd_def)+

lemma not_norm_key:
  "''one_liner'' \<notin> set norm_keys" "''num_calls'' \<notin> set norm_keys" "''complexity'' \<notin> set norm_keys"
  "''doc_len'' \<notin> set norm_keys" "''has_type_annotations'' \<notin> set norm_keys"
  "''label'' \<notin> set norm_keys" "''id'' \<notin> set norm_keys" "''loc'' \<notin> set norm_keys"
  by (simp_all add: norm_keys_def numeric_cols_def)

lemma is_norm_key:
  "''loc_norm'' \<in> set norm_keys" "''complexity_norm'' \<in> set norm_keys"
  "''num_calls_norm'' \<in> set norm_keys" "''num_params_norm'' \<in> set norm_keys"
  "''keyword_matches_norm'' \<in> set norm_keys" "''doc_len_norm'' \<in> set norm_keys"
  "''num_imports_norm'' \<in> set norm_keys"
  by (simp_all add: norm_keys_def numeric_cols_def)

section \<open>The scorer returns on the rows of the script\<close>

lemma weighted_score_total:
  assumes "\<forall>k\<in>set norm_keys. \<exists>x. r k = Some (PFloat x)"
  shows "\<exists>s. weighted_score r = Some s"
proof -
  have n: "\<And>k. k \<in> set norm_keys \<Longrightarrow> \<exists>x. to_num (getd r k (PFloat 0)) = Some x"
    using assms by (fastforce simp: getd_def)
  obtain a where a: "to_num (getd r ''loc_norm'' (PFloat 0)) = Some a" using n is_norm_key(1) by blast
  obtain b where b: "to_num (getd r ''complexity_norm'' (PFloat 0)) = Some b" using n is_norm_key(2) by blast
  obtain c where c: "to_num (getd r ''num_calls_norm'' (PFloat 0)) = Some c" using n is_norm_key(3) by blast
  obtain d where d: "to_num (getd r ''num_params_norm'' (PFloat 0)) = Some d" using n is_norm_key(4) by blast
  obtain e where e: "to_num (getd r ''keyword_matches_norm'' (PFloat 0)) = Some e" using n is_norm_key(5) by blast
  obtain f where f: "to_num (getd r ''doc_len_norm'' (PFloat 0)) = Some f" using n is_norm_key(6) by blast
  obtain g where g: "to_num (getd r ''num_imports_norm'' (PFloat 0)) = Some g" using n is_norm_key(7) by blast
  show ?thesis by (simp add: weighted_score_def a b c d e f g)
qed

lemma trivial_condition_total:
  assumes "to_num (getd r ''num_calls'' (PInt 0)) \<noteq> None"
    and "to_num (getd r ''complexity'' (PInt 0)) \<noteq> None"
  shows "\<exists>b. trivial_condition r = Some b"
  using assms by (auto simp: trivial_condition_def)

lemma documented_condition_total:
  assumes "to_num (getd r ''doc_len'' (PInt 0)) \<noteq> None"
  shows "\<exists>b. documented_condition r = Some b"
  using assms by (auto simp: documented_condition_def)

lemma compute_triviality_total:
  assumes "\<forall>k\<in>set norm_keys. \<exists>x. r k = Some (PFloat x)"
    and "to_num (getd r ''num_calls'' (PInt 0)) \<noteq> None"
    and "to_num (getd r ''complexity'' (PInt 0)) \<noteq> None"
    and "to_num (getd r ''doc_len'' (PInt 0)) \<noteq> None"
  shows "\<exists>t. compute_triviality render r = Some t"
proof -
  obtain s where s: "weighted_score r = Some s" using weighted_score_total assms(1) by blast
  obtain b1 where b1: "trivial_condition r = Some b1"
    using trivial_condition_total assms(2,3) by blast
  obtain b3 where b3: "documented_condition r = Some b3"
    using documented_condition_total assms(4) by blast
  show ?thesis
    by (simp add: compute_triviality_def s b1 b3 Let_def split del: if_split
          del: max.bounded_iff min.bounded_iff)
qed

section \<open>Sorting keeps the rows\<close>

lemma those_map_all2:
  "those (map f xs) = Some ys \<Longrightarrow> list_all2 (\<lambda>x y. f x = Some y) xs ys"
proof (induction xs arbitrary: ys)
  case Nil
  then show ?case by simp
next
  case (Cons x xs)
  then show ?case by (auto split: option.splits)
qed

lemma sort_by_importance_Some:
  assumes "sort_by_importance rows = Some out"
  shows "mset out = mset rows"
proof -
  from assms obtain keys
    where k: "those (map (\<lambda>r. to_num (getd r ''importance'' (PFloat 0))) rows) = Some keys"
      and out: "out = map snd (sort_key (\<lambda>p. - fst p) (zip keys rows))"
    by (auto simp: sort_by_importance_def split: Option.bind_splits)
  from k have len: "length keys = length rows" using those_map_nth by blast
  have "mset out = mset (map snd (zip keys rows))"
    unfolding out by (simp only: mset_map mset_sort)
  then show ?thesis using len by (simp add: map_snd_zip)
qed

lemma sort_by_importance_total:
  assumes "\<forall>r\<in>set rows. \<exists>x. r ''importance'' = Some (PFloat x)"
  shows "\<exists>out. sort_by_importance rows = Some out"
proof -
  have h: "\<forall>r\<in>set rows. to_num (getd r ''importance'' (PFloat 0)) \<noteq> None"
  proof
    fix r assume "r \<in> set rows"
    with assms have "\<exists>x. r ''importance'' = Some (PFloat x)" by (rule bspec)
    then obtain x where "r ''importance'' = Some (PFloat x)" ..
    then show "to_num (getd r ''importance'' (PFloat 0)) \<noteq> None" by (simp add: getd_def)
  qed
  obtain keys
    where k: "those (map (\<lambda>r. to_num (getd r ''importance'' (PFloat 0))) rows) = Some keys"
    using those_map_Some [OF h] ..
  show ?thesis unfolding sort_by_importance_def k by simp
qed

section \<open>Triviality and importance of the emitted rows\<close>

lemma normalized_rows_scorable:
  assumes n: "normalize (map (build_row parse render) nodes) = Some rows1"
    and r: "r \<in> set rows1"
  shows "\<exists>t. compute_triviality render r = Some t"
proof -
  let ?rows0 = "map (build_row parse render) nodes"
  from r obtain i where i: "i < length rows1" "r = rows1 ! i" by (auto simp: in_set_conv_nth)
  have len: "length rows1 = length ?rows0" using normalize_Some(1) [OF n] .
  with i have i0: "i < length ?rows0" by simp
  then have r0: "?rows0 ! i = build_row parse render (nodes ! i)" by simp
  have same: "\<And>k. k \<notin> set norm_keys \<Longrightarrow> r k = build_row parse render (nodes ! i) k"
    using normalize_Some(2) [OF n i0] i(2) r0 by simp
  have a: "\<forall>k\<in>set norm_keys. \<exists>x. r k = Some (PFloat x)"
    using normalize_Some(3) [OF n i0] i(2) by simp
  have b: "to_num (getd r ''num_calls'' (PInt 0)) \<noteq> None"
    using build_row_scored_keys(1) [of parse render "nodes ! i"]
      same [OF not_norm_key(2)] by (simp add: getd_def)
  have c: "to_num (getd r ''complexity'' (PInt 0)) \<noteq> None"
    using build_row_scored_keys(2) [of parse render "nodes ! i"]
      same [OF not_norm_key(3)] by (simp add: getd_def)
  have d: "to_num (getd r ''doc_len'' (PInt 0)) \<noteq> None"
    using build_row_scored_keys(3) [of parse render "nodes ! i"]
      same [OF not_norm_key(4)] by (simp add: getd_def)
  show ?thesis using compute_triviality_total [OF a b c d] .
qed

lemma normalize_build_total:
  "\<exists>rows1. normalize (map (build_row parse render) nodes) = Some rows1"
proof (rule normalize_total)
  show "\<forall>r\<in>set (map (build_row parse render) nodes).
          \<forall>c\<in>set numeric_cols. to_num (getd r c (PInt 0)) \<noteq> None"
    using build_row_numeric by auto
qed


text \<open>
  Claim C1: the ranking script returns for every list of nodes, one row per node, and in
  every row it emits triviality and importance are numbers in [0, 1] that add up to 1.
\<close>

theorem rank_functions_triviality_importance:
  "\<exists>rows. rank_functions parse render nodes = Some rows \<and> length rows = length nodes \<and>
     (\<forall>r\<in>set rows. \<exists>t i. r ''triviality'' = Some (PFloat t) \<and> r ''importance'' = Some (PFloat i)
        \<and> t + i = 1 \<and> 0 \<le> t \<and> t \<le> 1 \<and> 0 \<le> i \<and> i \<le> 1)"
proof -
  let ?P = "\<lambda>r :: row. \<exists>t i. r ''triviality'' = Some (PFloat t) \<and> r ''importance'' = Some (PFloat i)
        \<and> t + i = 1 \<and> 0 \<le> t \<and> t \<le> 1 \<and> 0 \<le> i \<and> i \<le> 1"
  obtain rows1 where n: "normalize (map (build_row parse render) nodes) = Some rows1"
    using normalize_build_total ..
  have len1: "length rows1 = length nodes" using normalize_Some(1) [OF n] by simp
  have sc: "\<forall>r\<in>set rows1. score_row render r \<noteq> None"
  proof
    fix r assume "r \<in> set rows1"
    then obtain t where "compute_triviality render r = Some t"
      using normalized_rows_scorable [OF n] by blast
    then show "score_row render r \<noteq> None" by (simp add: score_row_def Let_def)
  qed
  obtain rows2 where s: "those (map (score_row render) rows1) = Some rows2"
    using those_map_Some [OF sc] ..
  have len2: "length rows2 = length rows1" using those_map_nth [OF s] by simp
  have inv: "\<forall>r'\<in>set rows2. ?P r'"
  proof
    fix r' assume "r' \<in> set rows2"
    then obtain j where j: "j < length rows2" "r' = rows2 ! j" by (auto simp: in_set_conv_nth)
    with len2 those_map_nth [OF s] have "score_row render (rows1 ! j) = Some r'" by simp
    then show "?P r'" by (rule score_row_invariant)
  qed
  have imp: "\<forall>r\<in>set rows2. \<exists>x. r ''importance'' = Some (PFloat x)"
  proof
    fix r assume "r \<in> set rows2"
    with inv have "?P r" by (rule bspec)
    then obtain t i where "r ''importance'' = Some (PFloat i)" by (elim exE conjE)
    then show "\<exists>x. r ''importance'' = Some (PFloat x)" ..
  qed
  obtain out where o: "sort_by_importance rows2 = Some out"
    using sort_by_importance_total [OF imp] ..
  have m: "mset out = mset rows2" using sort_by_importance_Some [OF o] .
  have set_eq: "set out = set rows2" using m by (rule mset_eq_setD)
  have len3: "length out = length rows2" using m by (rule mset_eq_length)
  have run: "rank_functions parse render nodes = Some out"
    unfolding rank_functions_def Let_def n by (simp add: s o)
  have "length out = length nodes" using len1 len2 len3 by simp
  moreover have "\<forall>r\<in>set out. ?P r" using inv set_eq by simp
  ultimately show ?thesis using run by blast
qed

theorem rank_functions_triviality_importance_witness:
  "\<exists>rows. rank_functions (\<lambda>s. None) (\<lambda>v. [])
             [NDict [''id'' \<mapsto> PStr ''a'', ''code'' \<mapsto> PStr ''return 5'']] = Some rows
     \<and> length rows = 1 \<and>
     (\<forall>r\<in>set rows. \<exists>t i. r ''triviality'' = Some (PFloat t) \<and> r ''importance'' = Some (PFloat i)
        \<and> t + i = 1 \<and> 0 \<le> t \<and> t \<le> 1 \<and> 0 \<le> i \<and> i \<le> 1)"
  using rank_functions_triviality_importance
    [of "\<lambda>s. None" "\<lambda>v. []" "[NDict [''id'' \<mapsto> PStr ''a'', ''code'' \<mapsto> PStr ''return 5'']]"]
  by simp


section \<open>What the triviality of a row depends on\<close>

lemma example_row_setup: "compute_triviality (\<lambda>v. []) (example_row ''setup'') = Some (7 / 10)"
  by (simp add: compute_triviality_def weighted_score_def weights_def trivial_condition_def
      critical_condition_def documented_condition_def example_row_def getd_def
      critical_names_def critical_files_def lower_def lower_char_def Let_def)

lemma example_row_helper: "compute_triviality (\<lambda>v. []) (example_row ''helper'') = Some (17 / 20)"
  by (simp add: compute_triviality_def weighted_score_def weights_def trivial_condition_def
      critical_condition_def documented_condition_def example_row_def getd_def
      critical_names_def critical_files_def lower_def lower_char_def Let_def)

lemma example_rows_norms:
  "map (example_row ''setup'') norm_keys = map (example_row ''helper'') norm_keys"
  by (simp add: norm_keys_def numeric_cols_def example_row_def)

lemma getd_agree: "r1 k = r2 k \<Longrightarrow> getd r1 k d = getd r2 k d"
  by (simp add: getd_def)

lemma scorer_keys_agree:
  assumes "\<forall>k\<in>set scorer_keys. r1 k = r2 k"
  shows "getd r1 ''loc_norm'' d = getd r2 ''loc_norm'' d"
    and "getd r1 ''complexity_norm'' d = getd r2 ''complexity_norm'' d"
    and "getd r1 ''num_calls_norm'' d = getd r2 ''num_calls_norm'' d"
    and "getd r1 ''num_params_norm'' d = getd r2 ''num_params_norm'' d"
    and "getd r1 ''keyword_matches_norm'' d = getd r2 ''keyword_matches_norm'' d"
    and "getd r1 ''doc_len_norm'' d = getd r2 ''doc_len_norm'' d"
    and "getd r1 ''num_imports_norm'' d = getd r2 ''num_imports_norm'' d"
    and "getd r1 ''one_liner'' d = getd r2 ''one_liner'' d"
    and "getd r1 ''num_calls'' d = getd r2 ''num_calls'' d"
    and "getd r1 ''complexity'' d = getd r2 ''complexity'' d"
    and "getd r1 ''label'' d = getd r2 ''label'' d"
    and "getd r1 ''id'' d = getd r2 ''id'' d"
    and "getd r1 ''has_type_annotations'' d = getd r2 ''has_type_annotations'' d"
    and "getd r1 ''doc_len'' d = getd r2 ''doc_len'' d"
  using assms by (simp_all add: scorer_keys_def getd_def)

text \<open>
  Claim C4, as stated, fails: two rows with the same normalised metric values, one labelled
  \<open>setup\<close> and one labelled \<open>helper\<close>, get different triviality scores, since the
  second adjustment reads the label.
\<close>

theorem scorer_normalized_metrics_counterexample:
  "map (example_row ''setup'') norm_keys = map (example_row ''helper'') norm_keys
   \<and> compute_triviality (\<lambda>v. []) (example_row ''setup'')
       \<noteq> compute_triviality (\<lambda>v. []) (example_row ''helper'')"
  by (simp add: example_rows_norms example_row_setup example_row_helper)

text \<open>
  Claim C4, amended: the scorer is a function of the seven weighted normalised metrics of a
  row together with its one_liner, num_calls, complexity, has_type_annotations, doc_len,
  label and id entries, which the three adjustments read: two rows that agree on these
  entries get the same triviality, whatever else they hold.
\<close>

theorem compute_triviality_scorer_keys:
  assumes "\<forall>k\<in>set scorer_keys. r1 k = r2 k"
  shows "compute_triviality render r1 = compute_triviality render r2"
proof -
  note a = scorer_keys_agree [OF assms]
  have w: "weighted_score r1 = weighted_score r2"
    unfolding weighted_score_def by (simp only: a)
  have t: "trivial_condition r1 = trivial_condition r2"
    unfolding trivial_condition_def by (simp only: a)
  have c: "critical_condition render r1 = critical_condition render r2"
    unfolding critical_condition_def by (simp only: a)
  have d: "documented_condition r1 = documented_condition r2"
    unfolding documented_condition_def by (simp only: a)
  show ?thesis unfolding compute_triviality_def by (simp only: w t c d)
qed

theorem compute_triviality_scorer_keys_witness:
  "map (example_row ''setup'') scorer_keys
     = map ((example_row ''setup'')(''extra'' \<mapsto> PInt 7)) scorer_keys
   \<and> compute_triviality (\<lambda>v. []) (example_row ''setup'')
       = compute_triviality (\<lambda>v. []) ((example_row ''setup'')(''extra'' \<mapsto> PInt 7))"
proof -
  have h: "\<forall>k\<in>set scorer_keys. example_row ''setup'' k = ((example_row ''setup'')(''extra'' \<mapsto> PInt 7)) k"
    by (simp add: scorer_keys_def)
  have m: "map (example_row ''setup'') scorer_keys
     = map ((example_row ''setup'')(''extra'' \<mapsto> PInt 7)) scorer_keys"
    by (simp add: scorer_keys_def)
  show ?thesis using m compute_triviality_scorer_keys [OF h] by (rule conjI)
qed

section \<open>A one-line return of a constant\<close>














section \<open>Pass-through fields and the dictionaries of the rows\<close>

lemma upt_shift: "n # [Suc n..<Suc n + m] = [n..<n + Suc m]"
  by (simp add: upt_rec)

lemma extract_stage_eq:
  assumes "list_all (valid_nref h0) nodes" and "take (length h0) h = h0"
  shows "extract_stage parse render nodes h rows =
           (h @ map (\<lambda>n. build_row parse render (deref h0 n)) nodes,
            rows @ [length h..<length h + length nodes])"
  using assms
proof (induction nodes arbitrary: h rows)
  case Nil
  then show ?case by simp
next
  case (Cons n nodes)
  from Cons.prems have v: "valid_nref h0 n" and vs: "list_all (valid_nref h0) nodes" by simp_all
  have d: "deref h n = deref h0 n"
  proof (cases n)
    case (RDict a)
    with v have "a < length h0" by (simp add: valid_nref_def)
    then have "h ! a = h0 ! a" using Cons.prems(2) by (metis nth_take)
    then show ?thesis by (simp add: deref_def RDict)
  next
    case (ROther x)
    then show ?thesis by (simp add: deref_def)
  qed
  have t: "take (length h0) (h @ [build_row parse render (deref h n)]) = h0"
    using Cons.prems(2) by (metis append_eq_conv_conj append.assoc append_take_drop_id)
  show ?case
    using Cons.IH [OF vs t] upt_shift [of "length h" "length nodes"] by (simp add: d)
qed

lemma normalize_rows_eq:
  "normalize_rows cn i [length h0..<length h0 + length rs] (h0 @ rs) =
     h0 @ map (\<lambda>(j, r). set_norms cn j r) (enumerate i rs)"
proof (induction rs arbitrary: h0 i)
  case Nil
  then show ?case by simp
next
  case (Cons r rs)
  let ?h = "h0 @ [set_norms cn i r]"
  have u: "[length h0..<length h0 + length (r # rs)] = length h0 # [length ?h..<length ?h + length rs]"
    by (simp add: upt_conv_Cons del: upt_Suc)
  have "normalize_rows cn i [length h0..<length h0 + length (r # rs)] (h0 @ r # rs) =
          normalize_rows cn (Suc i) [length ?h..<length ?h + length rs] (?h @ rs)"
    unfolding u by simp
  also have "\<dots> = ?h @ map (\<lambda>(j, r). set_norms cn j r) (enumerate (Suc i) rs)"
    by (rule Cons.IH)
  finally show ?case by simp
qed

lemma map_nth_append_upt: "map (nth (h0 @ rs)) [length h0..<length h0 + length rs] = rs"
  by (rule nth_equalityI) (simp_all add: nth_append)

lemma normalize_stage_eq:
  "normalize_stage [length h0..<length h0 + length rs] (h0 @ rs) = map_option ((@) h0) (normalize rs)"
  by (simp add: normalize_stage_def normalize_def map_nth_append_upt normalize_rows_eq Let_def
      split: option.splits)

lemma score_stage_eq:
  "score_stage render [length h0..<length h0 + length rs] (h0 @ rs) =
     map_option ((@) h0) (those (map (score_row render) rs))"
proof (induction rs arbitrary: h0)
  case Nil
  then show ?case by simp
next
  case (Cons r rs)
  have u: "\<And>x. [length h0..<length h0 + length (r # rs)] =
             length h0 # [length (h0 @ [x])..<length (h0 @ [x]) + length rs]"
    by (simp add: upt_conv_Cons del: upt_Suc)
  show ?case
  proof (cases "score_row render r")
    case None
    then show ?thesis unfolding u [of r] by simp
  next
    case (Some r')
    let ?h = "h0 @ [r']"
    have "score_stage render [length h0..<length h0 + length (r # rs)] (h0 @ r # rs) =
            score_stage render [length ?h..<length ?h + length rs] (?h @ rs)"
      unfolding u [of r'] using Some by simp
    also have "\<dots> = map_option ((@) ?h) (those (map (score_row render) rs))"
      by (rule Cons.IH)
    also have "\<dots> = map_option ((@) h0) (those (map (score_row render) (r # rs)))"
      using Some by (cases "those (map (score_row render) rs)") simp_all
    finally show ?thesis .
  qed
qed

lemma insort_key_map: "insort_key k (g x) (map g xs) = map g (insort_key (\<lambda>y. k (g y)) x xs)"
  by (induction xs) simp_all

lemma sort_key_map: "sort_key k (map g xs) = map g (sort_key (\<lambda>y. k (g y)) xs)"
  by (induction xs) (simp_all add: insort_key_map)

lemma map_nth_append_upt_fun:
  "map (\<lambda>a. f ((h0 @ rs) ! a)) [length h0..<length h0 + length rs] = map f rs"
  by (rule nth_equalityI) (simp_all add: nth_append)

lemma sorted_addresses:
  assumes "length keys = length rs"
  shows "map (nth (h0 @ rs)) (map snd (sort_key (\<lambda>p. - fst p) (zip keys [length h0..<length h0 + length rs])))
           = map snd (sort_key (\<lambda>p. - fst p) (zip keys rs))"
proof -
  let ?h = "h0 @ rs" and ?rows = "[length h0..<length h0 + length rs]"
  let ?g = "\<lambda>p. (fst p, ?h ! snd p)"
  have "zip keys (map (nth ?h) ?rows) = map (\<lambda>(x, y). (x, ?h ! y)) (zip keys ?rows)"
    by (rule zip_map2)
  then have z: "zip keys rs = map ?g (zip keys ?rows)"
    unfolding map_nth_append_upt by (simp only: split_def)
  have "sort_key (\<lambda>p. - fst p) (map ?g (zip keys ?rows)) =
          map ?g (sort_key (\<lambda>y. - fst (?g y)) (zip keys ?rows))"
    by (rule sort_key_map)
  then have "sort_key (\<lambda>p. - fst p) (zip keys rs) = map ?g (sort_key (\<lambda>p. - fst p) (zip keys ?rows))"
    unfolding z by (simp only: fst_conv)
  then show ?thesis by (simp only: map_map comp_def snd_conv)
qed

lemma sort_stage_eq:
  assumes a: "sort_stage [length h0..<length h0 + length rs] (h0 @ rs) = Some out"
  shows "sort_by_importance rs = Some (map (nth (h0 @ rs)) out)
     \<and> mset out = mset [length h0..<length h0 + length rs]"
proof -
  let ?h = "h0 @ rs" and ?rows = "[length h0..<length h0 + length rs]"
  let ?f = "\<lambda>r. to_num (getd r ''importance'' (PFloat 0))"
  have m: "map (\<lambda>a. ?f ((h0 @ rs) ! a)) ?rows = map ?f rs"
    by (rule map_nth_append_upt_fun [where f = ?f])
  from a obtain keys where k: "those (map ?f rs) = Some keys"
    and out: "out = map snd (sort_key (\<lambda>p. - fst p) (zip keys ?rows))"
    unfolding sort_stage_def m by (auto split: Option.bind_splits)
  have len: "length keys = length rs" using those_map_nth [OF k] by simp
  have "map (nth ?h) out = map snd (sort_key (\<lambda>p. - fst p) (zip keys rs))"
    unfolding out using len by (rule sorted_addresses)
  then have "sort_by_importance rs = Some (map (nth ?h) out)"
    by (simp add: sort_by_importance_def k)
  moreover have "mset out = mset (map snd (zip keys ?rows))"
    unfolding out by (simp only: mset_map mset_sort)
  then have "mset out = mset ?rows" using len by (simp add: map_snd_zip del: upt_Suc)
  ultimately show ?thesis by simp
qed

lemma sort_stage_total:
  assumes "sort_by_importance rs = Some out_rows"
  shows "\<exists>out. sort_stage [length h0..<length h0 + length rs] (h0 @ rs) = Some out"
proof -
  let ?f = "\<lambda>r. to_num (getd r ''importance'' (PFloat 0))"
  from assms obtain keys where k: "those (map ?f rs) = Some keys"
    by (auto simp: sort_by_importance_def split: Option.bind_splits)
  have m: "map (\<lambda>a. ?f ((h0 @ rs) ! a)) [length h0..<length h0 + length rs] = map ?f rs"
    by (rule map_nth_append_upt_fun [where f = ?f])
  show ?thesis unfolding sort_stage_def m by (simp add: k)
qed

lemma build_row_unwritten:
  "build_row parse render nd ''loc_norm'' = original_node render nd ''loc_norm''"
  using build_row_shape [of parse render nd] by (elim exE) simp

lemma norm_keys_written: "k \<notin> set written_keys \<Longrightarrow> k \<notin> set norm_keys"
  by (simp add: written_keys_def)

lemma score_row_other:
  assumes "score_row render r = Some r'" and "k \<notin> set written_keys"
  shows "r' k = r k"
proof -
  from assms(1) obtain t where
    r': "r' = r(''triviality'' \<mapsto> PFloat (round4 t), ''importance'' \<mapsto> PFloat (round4 (1 - round4 t)))"
    by (auto simp: score_row_def Let_def split: Option.bind_splits)
  from assms(2) have "k \<noteq> ''triviality''" "k \<noteq> ''importance''"
    by (auto simp: written_keys_def)
  then show ?thesis by (simp add: r')
qed

lemma rank_functions_stages:
  "\<exists>rows1 rows2 out. normalize (map (build_row parse render) ns) = Some rows1
     \<and> those (map (score_row render) rows1) = Some rows2
     \<and> sort_by_importance rows2 = Some out"
proof -
  obtain rows1 where n: "normalize (map (build_row parse render) ns) = Some rows1"
    using normalize_build_total ..
  have sc: "\<forall>r\<in>set rows1. score_row render r \<noteq> None"
  proof
    fix r assume "r \<in> set rows1"
    then obtain t where "compute_triviality render r = Some t"
      using normalized_rows_scorable [OF n] by blast
    then show "score_row render r \<noteq> None" by (simp add: score_row_def Let_def)
  qed
  obtain rows2 where s: "those (map (score_row render) rows1) = Some rows2"
    using those_map_Some [OF sc] ..
  have len2: "length rows2 = length rows1" using those_map_nth [OF s] by simp
  have imp: "\<forall>r\<in>set rows2. \<exists>x. r ''importance'' = Some (PFloat x)"
  proof
    fix r assume "r \<in> set rows2"
    then obtain j where j: "j < length rows2" "r = rows2 ! j" by (auto simp: in_set_conv_nth)
    with len2 those_map_nth [OF s] have "score_row render (rows1 ! j) = Some r" by simp
    then obtain t i where "r ''importance'' = Some (PFloat i)"
      using score_row_invariant by blast
    then show "\<exists>x. r ''importance'' = Some (PFloat x)" ..
  qed
  obtain out where o: "sort_by_importance rows2 = Some out"
    using sort_by_importance_total [OF imp] ..
  from n s o show ?thesis by (intro exI conjI)
qed

lemma stages_pass_through:
  assumes n: "normalize (map (build_row parse render) ns) = Some rows1"
    and s: "those (map (score_row render) rows1) = Some rows2"
    and i: "i < length ns"
  shows "pass_through (rows2 ! i) = pass_through (original_node render (ns ! i))"
proof (rule ext)
  fix k
  show "pass_through (rows2 ! i) k = pass_through (original_node render (ns ! i)) k"
  proof (cases "k \<in> set written_keys")
    case True
    then show ?thesis by (simp add: pass_through_def)
  next
    case False
    have i0: "i < length (map (build_row parse render) ns)" using i by simp
    have len1: "length rows1 = length ns" using normalize_Some(1) [OF n] by simp
    have "score_row render (rows1 ! i) = Some (rows2 ! i)"
      using those_map_nth [OF s] i len1 by simp
    then have "(rows2 ! i) k = (rows1 ! i) k" using False by (rule score_row_other)
    also have "\<dots> = (map (build_row parse render) ns ! i) k"
      using normalize_Some(2) [OF n i0 norm_keys_written [OF False]] .
    also have "\<dots> = original_node render (ns ! i) k"
      using build_row_other [OF False] i by simp
    finally show ?thesis using False by (simp add: pass_through_def)
  qed
qed

lemma rank_store_run:
  assumes v: "list_all (valid_nref h0) nodes"
  shows "\<exists>rows2 out.
           extract_stage parse render nodes h0 [] =
             (h0 @ map (build_row parse render) (map (deref h0) nodes),
              [length h0..<length h0 + length nodes])
         \<and> length rows2 = length nodes
         \<and> rank_store parse render nodes h0 = Some (h0 @ rows2, out)
         \<and> mset out = mset [length h0..<length h0 + length nodes]
         \<and> rank_functions parse render (map (deref h0) nodes) = Some (map (nth (h0 @ rows2)) out)
         \<and> (\<forall>i<length nodes. pass_through (rows2 ! i)
                = pass_through (original_node render (deref h0 (nodes ! i))))"
proof -
  let ?ns = "map (deref h0) nodes"
  let ?rows0 = "map (build_row parse render) ?ns"
  let ?m = "length nodes"
  have e: "extract_stage parse render nodes h0 [] = (h0 @ ?rows0, [length h0..<length h0 + ?m])"
    using extract_stage_eq [OF v, of h0 parse render "[]"] by (simp add: comp_def del: upt_Suc)
  obtain rows1 rows2 out_rows where n: "normalize ?rows0 = Some rows1"
    and s: "those (map (score_row render) rows1) = Some rows2"
    and o: "sort_by_importance rows2 = Some out_rows"
    using rank_functions_stages [of parse render ?ns] by blast
  have len0: "length ?rows0 = ?m" by simp
  have len1: "length rows1 = ?m" using normalize_Some(1) [OF n] by simp
  have len2: "length rows2 = ?m" using those_map_nth [OF s] len1 by simp
  have ns: "normalize_stage [length h0..<length h0 + ?m] (h0 @ ?rows0) = Some (h0 @ rows1)"
    using normalize_stage_eq [of h0 ?rows0] n unfolding len0 by simp
  have ss: "score_stage render [length h0..<length h0 + ?m] (h0 @ rows1) = Some (h0 @ rows2)"
    using score_stage_eq [of render h0 rows1] unfolding len1 by (simp add: s)
  obtain out where so: "sort_stage [length h0..<length h0 + ?m] (h0 @ rows2) = Some out"
    using sort_stage_total [OF o, of h0] unfolding len2 ..
  have se: "sort_by_importance rows2 = Some (map (nth (h0 @ rows2)) out)
      \<and> mset out = mset [length h0..<length h0 + ?m]"
    using sort_stage_eq [of h0 rows2 out] so unfolding len2 by simp
  have run: "rank_store parse render nodes h0 = Some (h0 @ rows2, out)"
    unfolding rank_store_def e prod.case ns by (simp add: ss so del: upt_Suc)
  have pure: "rank_functions parse render ?ns = Some (map (nth (h0 @ rows2)) out)"
    unfolding rank_functions_def Let_def n using se by (simp add: s)
  have pt: "\<forall>i<?m. pass_through (rows2 ! i) = pass_through (original_node render (deref h0 (nodes ! i)))"
  proof (intro allI impI)
    fix i assume i: "i < ?m"
    then have "i < length ?ns" by simp
    from stages_pass_through [OF n s this] i
    show "pass_through (rows2 ! i) = pass_through (original_node render (deref h0 (nodes ! i)))"
      by simp
  qed
  from e len2 run se pure pt show ?thesis by blast
qed

text \<open>
  Claim C5, as stated, fails: the normalisation stage assigns into the dictionaries that
  the extraction stage created. For the store with one node, the row of that node has no
  \<open>loc_norm\<close> entry after extraction and has one after normalisation, in the same
  dictionary.
\<close>

theorem normalize_stage_in_place_counterexample:
  "normalize_stage (snd (extract_stage example_parse (\<lambda>v. []) [RDict 0] example_store []))
       (fst (extract_stage example_parse (\<lambda>v. []) [RDict 0] example_store [])) \<noteq> None
   \<and> \<not> spec_not_mutated (fst (extract_stage example_parse (\<lambda>v. []) [RDict 0] example_store []))
         (normalize_stage (snd (extract_stage example_parse (\<lambda>v. []) [RDict 0] example_store []))
            (fst (extract_stage example_parse (\<lambda>v. []) [RDict 0] example_store [])))"
proof -
  let ?nd = "deref example_store (RDict 0)"
  let ?r0 = "build_row example_parse (\<lambda>v. []) ?nd"
  have len: "length example_store = 1" by (simp add: example_store_def)
  have e: "extract_stage example_parse (\<lambda>v. []) [RDict 0] example_store [] = (example_store @ [?r0], [1])"
    by (simp add: len)
  obtain rows1 where n: "normalize (map (build_row example_parse (\<lambda>v. [])) [?nd]) = Some rows1"
    using normalize_build_total ..
  have len1: "length rows1 = 1" using normalize_Some(1) [OF n] by simp
  obtain x where x: "(rows1 ! 0) ''loc_norm'' = Some (PFloat x)"
    using normalize_Some(3) [OF n, of 0 "''loc_norm''"] is_norm_key(1) by auto
  have r0: "?r0 ''loc_norm'' = None"
    unfolding build_row_unwritten by (simp add: deref_def example_store_def)
  have ns: "normalize_stage [1] (example_store @ [?r0]) = Some (example_store @ rows1)"
    using normalize_stage_eq [of example_store "[?r0]"] n by (simp add: len)
  have "rows1 \<noteq> [?r0]"
  proof
    assume "rows1 = [?r0]"
    then have "(rows1 ! 0) ''loc_norm'' = ?r0 ''loc_norm''" by simp
    with x r0 show False by simp
  qed
  then have "take (length (example_store @ [?r0])) (example_store @ rows1) \<noteq> example_store @ [?r0]"
    using len len1 by simp
  then have "\<not> spec_not_mutated (example_store @ [?r0]) (Some (example_store @ rows1))"
    by (simp add: spec_not_mutated_def)
  then show ?thesis unfolding e fst_conv snd_conv ns by simp
qed

text \<open>
  Claim C5, amended: for loaded nodes, the script returns and leaves every dictionary
  that existed before it, the nodes among them, as it was. The extraction stage creates
  one new dictionary per node; the normalisation and scoring stages create none and assign
  their entries into these dictionaries, which are the rows that the script writes, with
  the entries that the functional reading of the script gives them. In the row of a node,
  every entry under a key that the script does not write is the entry of the node: none is
  dropped, changed or added.
\<close>

theorem rank_store_pass_through:
  assumes "list_all (valid_nref h0) nodes"
  shows "\<exists>h out. rank_store parse render nodes h0 = Some (h, out)
     \<and> take (length h0) h = h0
     \<and> length h = length (fst (extract_stage parse render nodes h0 []))
     \<and> snd (extract_stage parse render nodes h0 []) = [length h0..<length h0 + length nodes]
     \<and> mset out = mset (snd (extract_stage parse render nodes h0 []))
     \<and> rank_functions parse render (map (deref h0) nodes) = Some (map (nth h) out)
     \<and> (\<forall>i<length nodes. pass_through (h ! (length h0 + i))
            = pass_through (original_node render (deref h0 (nodes ! i))))"
proof -
  obtain rows2 out where
    e: "extract_stage parse render nodes h0 [] =
             (h0 @ map (build_row parse render) (map (deref h0) nodes),
              [length h0..<length h0 + length nodes])"
    and len: "length rows2 = length nodes"
    and run: "rank_store parse render nodes h0 = Some (h0 @ rows2, out)"
    and m: "mset out = mset [length h0..<length h0 + length nodes]"
    and pure: "rank_functions parse render (map (deref h0) nodes) = Some (map (nth (h0 @ rows2)) out)"
    and pt: "\<forall>i<length nodes. pass_through (rows2 ! i)
                = pass_through (original_node render (deref h0 (nodes ! i)))"
    using rank_store_run [OF assms, of parse render] by blast
  let ?h = "h0 @ rows2"
  have a: "take (length h0) ?h = h0" by simp
  have b: "length ?h = length (fst (extract_stage parse render nodes h0 []))"
    unfolding e fst_conv using len by simp
  have c: "snd (extract_stage parse render nodes h0 []) = [length h0..<length h0 + length nodes]"
    unfolding e snd_conv ..
  have d: "mset out = mset (snd (extract_stage parse render nodes h0 []))"
    unfolding c using m .
  have f: "\<forall>i<length nodes. pass_through (?h ! (length h0 + i))
            = pass_through (original_node render (deref h0 (nodes ! i)))"
    using pt by simp
  from run a b c d pure f show ?thesis by blast
qed

theorem rank_store_pass_through_witness:
  "list_all (valid_nref example_store) [RDict 0]
   \<and> (\<exists>h out. rank_store example_parse (\<lambda>v. []) [RDict 0] example_store = Some (h, out)
     \<and> take (length example_store) h = example_store
     \<and> length h = length (fst (extract_stage example_parse (\<lambda>v. []) [RDict 0] example_store []))
     \<and> snd (extract_stage example_parse (\<lambda>v. []) [RDict 0] example_store [])
         = [length example_store..<length example_store + length [RDict 0]]
     \<and> mset out = mset (snd (extract_stage example_parse (\<lambda>v. []) [RDict 0] example_store []))
     \<and> rank_functions example_parse (\<lambda>v. []) (map (deref example_store) [RDict 0])
         = Some (map (nth h) out)
     \<and> (\<forall>i<length [RDict 0]. pass_through (h ! (length example_store + i))
            = pass_through (original_node (\<lambda>v. []) (deref example_store ([RDict 0] ! i)))))"
proof -
  have v: "list_all (valid_nref example_store) [RDict 0]"
    by (simp add: valid_nref_def example_store_def)
  from v rank_store_pass_through [OF v, of example_parse "\<lambda>v. []"] show ?thesis by (rule conjI)
qed

section \<open>The exit status of the verification command\<close>



























end
